theory Spec2Isabelle
  imports Main "HOL-Library.List_Lexorder" "HOL-Library.Product_Lexorder"
begin

section \<open>Strings and the Unicode character database\<close>

text \<open>
  A Python \<open>str\<close> is a sequence of Unicode code points, so a string is a list of
  natural numbers here (\<open>len\<close> counts code points). \<open>ustr\<close> writes an ASCII literal.
\<close>

type_synonym ustr = "nat list"

definition ustr :: "string \<Rightarrow> ustr" where
  "ustr s = map of_char s"

text \<open>
  The program reads the Unicode character database through \<open>re\<close> (\<open>\w\<close>,
  \<open>re.IGNORECASE\<close>), \<open>str.isupper\<close> and \<open>str.lower\<close>. The database belongs to the
  interpreter, not to the repository, so its non-ASCII part is a parameter: a record of
  the four tables the program consults. On ASCII (code points below 128) the tables are
  written out below.
  \<^item> \<open>u_alnum c\<close>: \<open>str.isalnum\<close> of the one-character string \<open>c\<close>;
  \<^item> \<open>u_upper c\<close>: \<open>str.isupper\<close> of the one-character string \<open>c\<close>;
  \<^item> \<open>u_tolower c\<close>: the simple (one to one) lowercase mapping that \<open>re.IGNORECASE\<close> uses;
  \<^item> \<open>u_lower before c after\<close>: what \<open>str.lower\<close> writes for \<open>c\<close> standing between
    \<open>before\<close> and \<open>after\<close> (the full mapping may give several code points, and the
    capital sigma depends on its context).
\<close>

record ucd =
  u_alnum :: "nat \<Rightarrow> bool"
  u_upper :: "nat \<Rightarrow> bool"
  u_tolower :: "nat \<Rightarrow> nat"
  u_lower :: "ustr \<Rightarrow> nat \<Rightarrow> ustr \<Rightarrow> ustr"

definition is_AZ :: "nat \<Rightarrow> bool" where
  "is_AZ c = (65 \<le> c \<and> c \<le> 90)"

definition is_az :: "nat \<Rightarrow> bool" where
  "is_az c = (97 \<le> c \<and> c \<le> 122)"

definition is_09 :: "nat \<Rightarrow> bool" where
  "is_09 c = (48 \<le> c \<and> c \<le> 57)"

text \<open>\<open>\s\<close> of a \<open>str\<close> pattern and the characters \<open>str.strip()\<close> removes: Unicode whitespace.\<close>

definition is_space :: "nat \<Rightarrow> bool" where
  "is_space c = ((9 \<le> c \<and> c \<le> 13) \<or> (28 \<le> c \<and> c \<le> 32) \<or> c = 0x85 \<or> c = 0xA0
     \<or> c = 0x1680 \<or> (0x2000 \<le> c \<and> c \<le> 0x200A) \<or> c = 0x2028 \<or> c = 0x2029
     \<or> c = 0x202F \<or> c = 0x205F \<or> c = 0x3000)"

text \<open>\<open>\w\<close> of a \<open>str\<close> pattern: alphanumeric or underscore (\<open>\d\<close> is a part of it).\<close>

definition is_word :: "ucd \<Rightarrow> nat \<Rightarrow> bool" where
  "is_word U c = (if c < 128 then is_AZ c \<or> is_az c \<or> is_09 c \<or> c = 95 else u_alnum U c)"

definition is_upper :: "ucd \<Rightarrow> nat \<Rightarrow> bool" where
  "is_upper U c = (if c < 128 then is_AZ c else u_upper U c)"

definition ascii_lower :: "nat \<Rightarrow> nat" where
  "ascii_lower c = (if is_AZ c then c + 32 else c)"

definition sre_lower :: "ucd \<Rightarrow> nat \<Rightarrow> nat" where
  "sre_lower U c = (if c < 128 then ascii_lower c else u_tolower U c)"

text \<open>\<open>s.lower()\<close>: every character is rewritten in place, left to right.\<close>

fun lower_from :: "ucd \<Rightarrow> ustr \<Rightarrow> ustr \<Rightarrow> ustr" where
  "lower_from U pre [] = []"
| "lower_from U pre (c # post) =
     (if c < 128 then [ascii_lower c] else u_lower U pre c post)
     @ lower_from U (pre @ [c]) post"

definition py_lower :: "ucd \<Rightarrow> ustr \<Rightarrow> ustr" where
  "py_lower U s = lower_from U [] s"

text \<open>\<open>s.strip(chars)\<close> and \<open>s.strip()\<close>.\<close>

definition strip_by :: "(nat \<Rightarrow> bool) \<Rightarrow> ustr \<Rightarrow> ustr" where
  "strip_by P s = rev (dropWhile P (rev (dropWhile P s)))"

definition py_strip :: "ustr \<Rightarrow> ustr" where
  "py_strip s = strip_by is_space s"

text \<open>\<open>sub in s\<close> for strings.\<close>

definition starts_with :: "ustr \<Rightarrow> ustr \<Rightarrow> bool" where
  "starts_with sub s = (take (length sub) s = sub)"

fun contains :: "ustr \<Rightarrow> ustr \<Rightarrow> bool" where
  "contains sub [] = (sub = [])"
| "contains sub (c # cs) = (starts_with sub (c # cs) \<or> contains sub cs)"

section \<open>Regular expressions\<close>

text \<open>
  Python's \<open>re\<close> matches by backtracking: a greedy repetition takes as much as it can and
  gives characters back one at a time while the rest of the pattern fails. Each pattern
  of the program is written with the combinators below, one combinator per pattern
  element, each taking the matcher \<open>k\<close> of the rest of the pattern. A matcher maps the
  input at the current position to \<open>None\<close> (no match) or to the result of the first
  successful way to match. \<open>re_end\<close> closes a pattern and returns the unconsumed input.
\<close>

definition re_end :: "ustr \<Rightarrow> ustr option" where
  "re_end s = Some s"

text \<open>One character of a class: \<open>[...]\<close>, \<open>\s\<close>, a literal, or \<open>.\<close>.\<close>

definition re_cls :: "(nat \<Rightarrow> bool) \<Rightarrow> (ustr \<Rightarrow> 'a option) \<Rightarrow> ustr \<Rightarrow> 'a option" where
  "re_cls P k s = (case s of [] \<Rightarrow> None | c # cs \<Rightarrow> if P c then k cs else None)"

text \<open>\<open>X*\<close> for a class \<open>X\<close>, greedy.\<close>

fun re_star :: "(nat \<Rightarrow> bool) \<Rightarrow> (ustr \<Rightarrow> 'a option) \<Rightarrow> ustr \<Rightarrow> 'a option" where
  "re_star P k [] = k []"
| "re_star P k (c # cs) =
     (if P c then (case re_star P k cs of Some r \<Rightarrow> Some r | None \<Rightarrow> k (c # cs))
      else k (c # cs))"

text \<open>\<open>X+\<close>.\<close>

definition re_plus :: "(nat \<Rightarrow> bool) \<Rightarrow> (ustr \<Rightarrow> 'a option) \<Rightarrow> ustr \<Rightarrow> 'a option" where
  "re_plus P k = re_cls P (re_star P k)"

text \<open>\<open>X{lo,hi}\<close>, greedy.\<close>

fun re_rep :: "(nat \<Rightarrow> bool) \<Rightarrow> nat \<Rightarrow> nat \<Rightarrow> (ustr \<Rightarrow> 'a option) \<Rightarrow> ustr \<Rightarrow> 'a option" where
  "re_rep P lo hi k [] = (if lo = 0 then k [] else None)"
| "re_rep P lo hi k (c # cs) =
     (if 0 < hi \<and> P c
      then (case re_rep P (lo - 1) (hi - 1) k cs of
              Some r \<Rightarrow> Some r
            | None \<Rightarrow> if lo = 0 then k (c # cs) else None)
      else if lo = 0 then k (c # cs) else None)"

text \<open>
  \<open>$\<close> without \<open>re.MULTILINE\<close>: the end of the string, or just before a newline that is
  the last character of the string.
\<close>

definition re_eol :: "(ustr \<Rightarrow> 'a option) \<Rightarrow> ustr \<Rightarrow> 'a option" where
  "re_eol k s = (if s = [] \<or> s = [10] then k s else None)"

text \<open>
  A lowercase ASCII letter of a pattern compiled with \<open>re.IGNORECASE\<close>: the character's
  simple lowercase must be the letter or one of its listed equivalents (\<open>sre_compile\<close>
  pairs \<open>i\<close> with U+0131 and \<open>s\<close> with U+017F).
\<close>

definition ci_letter :: "ucd \<Rightarrow> nat \<Rightarrow> nat \<Rightarrow> bool" where
  "ci_letter U p c = (let lo = sre_lower U c in
     lo = p \<or> (p = 0x69 \<and> lo = 0x131) \<or> (p = 0x73 \<and> lo = 0x17F))"

fun re_lit :: "ucd \<Rightarrow> ustr \<Rightarrow> (ustr \<Rightarrow> 'a option) \<Rightarrow> ustr \<Rightarrow> 'a option" where
  "re_lit U [] k s = k s"
| "re_lit U (p # ps) k s = re_cls (ci_letter U p) (re_lit U ps k) s"

text \<open>
  \<open>re.sub(pattern, repl, s)\<close> for a pattern that cannot match the empty string (none of
  the program's patterns can): scanning from the left, every match is replaced and the
  scan goes on behind it. The length test only makes the recursion well founded.
\<close>

function re_sub :: "(ustr \<Rightarrow> ustr option) \<Rightarrow> ustr \<Rightarrow> ustr \<Rightarrow> ustr" where
  "re_sub m repl s =
     (case m s of
        Some r \<Rightarrow>
          if length r < length s then repl @ re_sub m repl r
          else (case s of [] \<Rightarrow> [] | c # cs \<Rightarrow> c # re_sub m repl cs)
      | None \<Rightarrow> (case s of [] \<Rightarrow> [] | c # cs \<Rightarrow> c # re_sub m repl cs))"
  by pat_completeness auto
termination
  by (relation "measure (\<lambda>(m, repl, s). length s)") auto

text \<open>\<open>re.sub\<close> for a pattern that starts with \<open>^\<close>: it can only match at position 0.\<close>

definition re_sub_bos :: "(ustr \<Rightarrow> ustr option) \<Rightarrow> ustr \<Rightarrow> ustr \<Rightarrow> ustr" where
  "re_sub_bos m repl s = (case m s of Some r \<Rightarrow> repl @ r | None \<Rightarrow> s)"

text \<open>
  \<open>re.split(pattern, s)\<close> for a pattern without groups that cannot match the empty
  string; \<open>cur\<close> is the piece read since the last match.
\<close>

function re_split_from :: "(ustr \<Rightarrow> ustr option) \<Rightarrow> ustr \<Rightarrow> ustr \<Rightarrow> ustr list" where
  "re_split_from m cur s =
     (case m s of
        Some r \<Rightarrow>
          if length r < length s then cur # re_split_from m [] r
          else (case s of [] \<Rightarrow> [cur] | c # cs \<Rightarrow> re_split_from m (cur @ [c]) cs)
      | None \<Rightarrow> (case s of [] \<Rightarrow> [cur] | c # cs \<Rightarrow> re_split_from m (cur @ [c]) cs))"
  by pat_completeness auto
termination
  by (relation "measure (\<lambda>(m, cur, s). length s)") auto

definition re_split :: "(ustr \<Rightarrow> ustr option) \<Rightarrow> ustr \<Rightarrow> ustr list" where
  "re_split m s = re_split_from m [] s"

text \<open>
  \<open>re.findall(r"\b\w+\b", s)\<close>: the maximal runs of word characters, left to right
  (\<open>\w+\<close> is greedy and \<open>\b\<close> holds exactly where a run starts and where it ends);
  \<open>cur\<close> is the run being read.
\<close>

fun words_from :: "ucd \<Rightarrow> ustr \<Rightarrow> ustr \<Rightarrow> ustr list" where
  "words_from U cur [] = (if cur = [] then [] else [cur])"
| "words_from U cur (c # cs) =
     (if is_word U c then words_from U (cur @ [c]) cs
      else (if cur = [] then [] else [cur]) @ words_from U [] cs)"

definition findall_words :: "ucd \<Rightarrow> ustr \<Rightarrow> ustr list" where
  "findall_words U s = words_from U [] s"

section \<open>Noise stripper\<close>

definition is_emoji :: "nat \<Rightarrow> bool" where
  "is_emoji c = ((0x1F300 \<le> c \<and> c \<le> 0x1F5FF) \<or> (0x1F600 \<le> c \<and> c \<le> 0x1F64F)
     \<or> (0x1F680 \<le> c \<and> c \<le> 0x1F6FF) \<or> (0x1F700 \<le> c \<and> c \<le> 0x1F77F)
     \<or> (0x1F780 \<le> c \<and> c \<le> 0x1F7FF) \<or> (0x1F800 \<le> c \<and> c \<le> 0x1F8FF)
     \<or> (0x1F900 \<le> c \<and> c \<le> 0x1F9FF) \<or> (0x1FA00 \<le> c \<and> c \<le> 0x1FA6F)
     \<or> (0x1FA70 \<le> c \<and> c \<le> 0x1FAFF) \<or> (0x2600 \<le> c \<and> c \<le> 0x26FF)
     \<or> (0x2700 \<le> c \<and> c \<le> 0x27BF))"

text \<open>\<open>EMOJI_PATTERN\<close>: one or more characters of the emoji ranges.\<close>

definition EMOJI_PATTERN :: "ustr \<Rightarrow> ustr option" where
  "EMOJI_PATTERN = re_plus is_emoji re_end"

text \<open>\<open>re.sub(r'how\s*to\s*spanish\s*podcast', '', s, flags=re.IGNORECASE)\<close>\<close>

definition remove_known_tags :: "ucd \<Rightarrow> ustr \<Rightarrow> ustr" where
  "remove_known_tags U s =
     re_sub (re_lit U (ustr ''how'') (re_star is_space
            (re_lit U (ustr ''to'') (re_star is_space
            (re_lit U (ustr ''spanish'') (re_star is_space
            (re_lit U (ustr ''podcast'') re_end)))))))
       [] s"

definition remove_emojis :: "ustr \<Rightarrow> ustr" where
  "remove_emojis s = re_sub EMOJI_PATTERN [] s"

text \<open>
  The three substitutions of \<open>strip_brackets_and_parentheses\<close>:
  \<open>\[[^\]]*\]\<close> by nothing, \<open>\s*\([^)]*\)\s*$\<close> by nothing, \<open>\([^)]*\)\<close> by a space.
\<close>

definition strip_brackets_and_parentheses :: "ustr \<Rightarrow> ustr" where
  "strip_brackets_and_parentheses s0 =
     (let s1 = re_sub (re_cls (\<lambda>c. c = 0x5B) (re_star (\<lambda>c. c \<noteq> 0x5D)
                        (re_cls (\<lambda>c. c = 0x5D) re_end))) [] s0;
          s2 = re_sub (re_star is_space (re_cls (\<lambda>c. c = 0x28) (re_star (\<lambda>c. c \<noteq> 0x29)
                        (re_cls (\<lambda>c. c = 0x29) (re_star is_space (re_eol re_end)))))) [] s1;
          s3 = re_sub (re_cls (\<lambda>c. c = 0x28) (re_star (\<lambda>c. c \<noteq> 0x29)
                        (re_cls (\<lambda>c. c = 0x29) re_end))) [32] s2
      in s3)"

text \<open>\<open>re.sub(r'^[^\w\d]+', '', s, flags=re.UNICODE)\<close>\<close>

definition strip_leading_noise :: "ucd \<Rightarrow> ustr \<Rightarrow> ustr" where
  "strip_leading_noise U s = re_sub_bos (re_plus (\<lambda>c. \<not> is_word U c) re_end) [] s"

text \<open>\<open>re.sub(r'[^\w\d]+$', '', s, flags=re.UNICODE)\<close>\<close>

definition strip_trailing_noise :: "ucd \<Rightarrow> ustr \<Rightarrow> ustr" where
  "strip_trailing_noise U s = re_sub (re_plus (\<lambda>c. \<not> is_word U c) (re_eol re_end)) [] s"

text \<open>
  The characters that \<open>s.strip(...)\<close> removes in \<open>sanitize_whitespace_and_punct\<close>: space,
  hyphen, en dash (U+2013), em dash (U+2014), underscore, colon, semicolon, comma, full stop.
\<close>

definition is_edge_punct :: "nat \<Rightarrow> bool" where
  "is_edge_punct c = (c \<in> set [0x20, 0x2D, 0x2013, 0x2014, 0x5F, 0x3A, 0x3B, 0x2C, 0x2E])"

definition sanitize_whitespace_and_punct :: "ustr \<Rightarrow> ustr" where
  "sanitize_whitespace_and_punct s0 =
     (let s1 = py_strip (re_sub (re_plus is_space re_end) [32] s0);
          s2 = strip_by is_edge_punct s1
      in s2)"

text \<open>The class \<open>[<>:"/\\|?*\x00-\x1f]\<close>.\<close>

definition is_illegal :: "nat \<Rightarrow> bool" where
  "is_illegal c = (c \<in> set [0x3C, 0x3E, 0x3A, 0x22, 0x2F, 0x5C, 0x7C, 0x3F, 0x2A] \<or> c \<le> 0x1F)"

definition make_safe_filename :: "ustr \<Rightarrow> ustr" where
  "make_safe_filename s0 =
     (let s1 = re_sub (re_cls is_illegal re_end) [] s0;
          s2 = py_strip s1
      in s2)"

section \<open>Segment scorer\<close>

text \<open>
  The class of \<open>alpha_count\<close>: A to Z, a to z, and U+00C0 to U+00FF without the
  multiplication sign U+00D7 and the division sign U+00F7.
\<close>

definition is_latin :: "nat \<Rightarrow> bool" where
  "is_latin c = (is_AZ c \<or> is_az c \<or> (0xC0 \<le> c \<and> c \<le> 0xD6) \<or> (0xD8 \<le> c \<and> c \<le> 0xF6)
     \<or> (0xF8 \<le> c \<and> c \<le> 0xFF))"

definition TAGS :: "ustr list" where
  "TAGS = [ustr ''listening'', ustr ''spanish'', ustr ''audio'', ustr ''podcast'',
           ustr ''lecture'', ustr ''mp3'']"

text \<open>\<open>w[0].isupper()\<close> for a word \<open>w\<close> that \<open>findall\<close> returned (never empty).\<close>

definition starts_upper :: "ucd \<Rightarrow> ustr \<Rightarrow> bool" where
  "starts_upper U w = (case w of [] \<Rightarrow> False | c # _ \<Rightarrow> is_upper U c)"

text \<open>The loop over the tags: 5 more for every tag found in the lowered segment.\<close>

fun tag_penalty_loop :: "ustr \<Rightarrow> ustr list \<Rightarrow> int \<Rightarrow> int" where
  "tag_penalty_loop lower [] tag_penalty = tag_penalty"
| "tag_penalty_loop lower (tag # tags) tag_penalty =
     tag_penalty_loop lower tags (if contains tag lower then tag_penalty + 5 else tag_penalty)"

definition score :: "ucd \<Rightarrow> ustr \<Rightarrow> int" where
  "score U seg =
     (let alpha_count = int (length (filter is_latin seg));
          title_words = int (length (filter (starts_upper U) (findall_words U seg)));
          tag_penalty = tag_penalty_loop (py_lower U seg) TAGS 0
      in alpha_count + title_words * 5 - tag_penalty)"

text \<open>
  \<open>scored.sort(reverse=True)\<close> on a list of (int, str) tuples: tuples compare
  lexicographically, strings by code points. Python reverses the list, sorts it stably
  in ascending order and reverses it again.
\<close>

definition sort_reverse :: "(int \<times> ustr) list \<Rightarrow> (int \<times> ustr) list" where
  "sort_reverse xs = rev (sort (rev xs))"

definition choose_best_segment :: "ucd \<Rightarrow> ustr list \<Rightarrow> ustr" where
  "choose_best_segment U segments =
     (let scored = sort_reverse (map (\<lambda>s. (score U s, py_strip s)) segments)
      in case scored of [] \<Rightarrow> [] | x # _ \<Rightarrow> snd x)"

section \<open>Title extractor\<close>

text \<open>
  \<open>re.match(r'^([A-Z]{2,20})(\s+.+)$', s)\<close>, returning \<open>m.group(2)\<close>: the text between
  the end of group 1 and the end of the match. \<open>.\<close> is any character but a newline.
\<close>

definition allcaps_prefix_match :: "ustr \<Rightarrow> ustr option" where
  "allcaps_prefix_match s =
     re_rep is_AZ 2 20
       (\<lambda>r. case re_plus is_space (re_plus (\<lambda>c. c \<noteq> 10) (re_eol re_end)) r of
               None \<Rightarrow> None
             | Some r' \<Rightarrow> Some (take (length r - length r') r))
       s"

definition is_separator :: "nat \<Rightarrow> bool" where
  "is_separator c = (c \<in> set [0x2D, 0x2014, 0x2013, 0x3A])"

definition has_separator :: "ustr \<Rightarrow> bool" where
  "has_separator s = (contains [0x20, 0x2D, 0x20] s \<or> contains [0x20, 0x2014, 0x20] s
     \<or> contains [0x20, 0x2013, 0x20] s \<or> contains [0x3A] s)"

text \<open>\<open>len(re.findall(r'[A-Za-z]', s))\<close>\<close>

definition ascii_letter_count :: "ustr \<Rightarrow> nat" where
  "ascii_letter_count s = length (filter (\<lambda>c. is_AZ c \<or> is_az c) s)"

text \<open>The \<open>else\<close> branch of \<open>extract_title\<close>: the all-caps-prefix drop.\<close>

definition drop_allcaps_prefix :: "ustr \<Rightarrow> ustr" where
  "drop_allcaps_prefix s =
     (case allcaps_prefix_match s of
        None \<Rightarrow> s
      | Some g2 \<Rightarrow>
          (let candidate = py_strip g2
           in if ascii_letter_count candidate > ascii_letter_count s then candidate else s))"

text \<open>The pipeline of \<open>extract_title\<close> up to the fallback.\<close>

definition title_pipeline :: "ucd \<Rightarrow> ustr \<Rightarrow> ustr" where
  "title_pipeline U filename_no_ext =
     (let s1 = map (\<lambda>c. if c = 0x5F then 0x20 else c) filename_no_ext;
          s2 = remove_emojis s1;
          s3 = remove_known_tags U s2;
          s4 = strip_brackets_and_parentheses s3;
          s5 = strip_leading_noise U s4;
          s6 = (if has_separator s5
                then choose_best_segment U
                       (re_split (re_cls is_space (re_cls is_separator (re_cls is_space re_end))) s5)
                else drop_allcaps_prefix s5);
          s7 = remove_emojis s6;
          s8 = sanitize_whitespace_and_punct s7;
          s9 = strip_trailing_noise U s8
      in make_safe_filename s9)"

definition extract_title :: "ucd \<Rightarrow> ustr \<Rightarrow> ustr" where
  "extract_title U filename_no_ext =
     (let s = title_pipeline U filename_no_ext
      in if s = [] then make_safe_filename filename_no_ext else s)"

text \<open>
  \<open>extract_title\<close> with the all-caps-prefix branch deleted: without a separator the
  string goes on unchanged. Everything else is as in \<open>title_pipeline\<close>.
\<close>

definition title_pipeline_without_drop :: "ucd \<Rightarrow> ustr \<Rightarrow> ustr" where
  "title_pipeline_without_drop U filename_no_ext =
     (let s1 = map (\<lambda>c. if c = 0x5F then 0x20 else c) filename_no_ext;
          s2 = remove_emojis s1;
          s3 = remove_known_tags U s2;
          s4 = strip_brackets_and_parentheses s3;
          s5 = strip_leading_noise U s4;
          s6 = (if has_separator s5
                then choose_best_segment U
                       (re_split (re_cls is_space (re_cls is_separator (re_cls is_space re_end))) s5)
                else s5);
          s7 = remove_emojis s6;
          s8 = sanitize_whitespace_and_punct s7;
          s9 = strip_trailing_noise U s8
      in make_safe_filename s9)"

definition extract_title_without_drop :: "ucd \<Rightarrow> ustr \<Rightarrow> ustr" where
  "extract_title_without_drop U filename_no_ext =
     (let s = title_pipeline_without_drop U filename_no_ext
      in if s = [] then make_safe_filename filename_no_ext else s)"

text \<open>
  A database that classifies nothing beyond ASCII. Closed statements about ASCII inputs
  are stated with it; on such inputs no table of the database is consulted.
\<close>

definition ascii_ucd :: ucd where
  "ascii_ucd = \<lparr>u_alnum = (\<lambda>c. False), u_upper = (\<lambda>c. False), u_tolower = (\<lambda>c. c),
     u_lower = (\<lambda>pre c post. [c])\<rparr>"


section \<open>Batch planner\<close>

subsection \<open>Paths and the directory state\<close>

text \<open>
  A \<open>pathlib\<close> path is the list of its parts; paths are equal when their parts are, and
  \<open>sorted\<close> orders them as lists of strings (lexicographically, strings by code points).
  \<open>p.name\<close> is the last part, \<open>p.parent\<close> drops it and \<open>p.with_name(name)\<close> replaces it.
  \<open>with_name\<close> raises for a name that is empty or holds a separator; the planner only
  passes names that end with one of the four extensions and hold no slash
  (lemma \<open>candidate_names_valid\<close>), so the model has no such branch.
\<close>

type_synonym path = "ustr list"

definition path_name :: "path \<Rightarrow> ustr" where
  "path_name p = (case rev p of [] \<Rightarrow> [] | n # _ \<Rightarrow> n)"

definition parent :: "path \<Rightarrow> path" where
  "parent p = butlast p"

definition with_name :: "path \<Rightarrow> ustr \<Rightarrow> path" where
  "with_name p name = butlast p @ [name]"

text \<open>The names \<open>with_name\<close> accepts: not empty, without a slash, and not a single dot.\<close>

definition valid_name :: "ustr \<Rightarrow> bool" where
  "valid_name name = (name \<noteq> [] \<and> 0x2F \<notin> set name \<and> name \<noteq> [0x2E])"

text \<open>
  \<open>name.rfind('.')\<close>, and \<open>p.suffix\<close> and \<open>p.stem\<close> as \<open>pathlib\<close> computes them: the name is
  cut at its last dot unless that dot is the first or the last character.
\<close>

definition rfind :: "nat \<Rightarrow> ustr \<Rightarrow> nat option" where
  "rfind c s = (if c \<in> set s then Some (length s - 1 - length (takeWhile (\<lambda>x. x \<noteq> c) (rev s)))
                else None)"

definition path_suffix :: "path \<Rightarrow> ustr" where
  "path_suffix p = (let name = path_name p in
     case rfind 0x2E name of
       None \<Rightarrow> []
     | Some i \<Rightarrow> if 0 < i \<and> i + 1 < length name then drop i name else [])"

definition path_stem :: "path \<Rightarrow> ustr" where
  "path_stem p = (let name = path_name p in
     case rfind 0x2E name of
       None \<Rightarrow> name
     | Some i \<Rightarrow> if 0 < i \<and> i + 1 < length name then take i name else name)"

text \<open>
  The directory state at planning time: every path that exists, with the answer of
  \<open>is_file\<close>. The log file \<open>rename_map.csv\<close> is kept apart from it (it is written in the
  working directory and its name never ends with an audio extension). \<open>iterdir\<close> lists
  the children of a directory and \<open>rglob('*')\<close> everything below it; the order does not
  matter, the program sorts the files. These are the answers of calls that return; the
  calls that raise are part of the executor below.
\<close>

type_synonym dir_state = "(path \<times> bool) list"

definition exists_path :: "dir_state \<Rightarrow> path \<Rightarrow> bool" where
  "exists_path fs p = (p \<in> set (map fst fs))"

definition is_file :: "dir_state \<Rightarrow> path \<Rightarrow> bool" where
  "is_file fs p = ((p, True) \<in> set fs)"

definition iterdir :: "dir_state \<Rightarrow> path \<Rightarrow> path list" where
  "iterdir fs directory = filter (\<lambda>p. p \<noteq> [] \<and> butlast p = directory) (map fst fs)"

definition rglob_all :: "dir_state \<Rightarrow> path \<Rightarrow> path list" where
  "rglob_all fs directory =
     filter (\<lambda>p. length directory < length p \<and> take (length directory) p = directory) (map fst fs)"

definition EXTENSIONS :: "ustr list" where
  "EXTENSIONS = [ustr ''.mp3'', ustr ''.m4a'', ustr ''.wav'', ustr ''.aac'']"


definition discover :: "ucd \<Rightarrow> dir_state \<Rightarrow> path \<Rightarrow> bool \<Rightarrow> path list" where
  "discover U fs directory recursive =
     filter (\<lambda>p. is_file fs p \<and> py_lower U (path_suffix p) \<in> set EXTENSIONS)
       (if recursive then rglob_all fs directory else iterdir fs directory)"

subsection \<open>The collision loop\<close>

text \<open>\<open>str(count)\<close> in decimal, and the f-string \<open>f"{base} ({count}){ext}"\<close>.\<close>

fun str_nat :: "nat \<Rightarrow> ustr" where
  "str_nat n = (if n < 10 then [48 + n] else str_nat (n div 10) @ [48 + n mod 10])"

declare str_nat.simps [simp del]

definition numbered :: "ustr \<Rightarrow> nat \<Rightarrow> ustr \<Rightarrow> ustr" where
  "numbered base count ext = base @ ustr '' ('' @ str_nat count @ ustr '')'' @ ext"

text \<open>
  \<open>any(dst == candidate_path for _, dst in mapping if dst.parent == p.parent and dst != p)\<close>
\<close>

definition planned_for_other :: "(path \<times> path) list \<Rightarrow> path \<Rightarrow> path \<Rightarrow> bool" where
  "planned_for_other mapping p candidate_path =
     list_ex (\<lambda>(src, dst). dst = candidate_path)
       (filter (\<lambda>(src, dst). parent dst = parent p \<and> dst \<noteq> p) mapping)"

text \<open>
  The loop ends because the numbered names are pairwise different and only finitely many
  paths exist or are planned: the measure counts the numbers above \<open>count\<close> whose name is
  taken, plus one while the current candidate is taken.
\<close>

lemma str_nat_small: "n < 10 \<Longrightarrow> str_nat n = [48 + n]"
  by (subst str_nat.simps) simp

lemma str_nat_big: "\<not> n < 10 \<Longrightarrow> str_nat n = str_nat (n div 10) @ [48 + n mod 10]"
  by (subst str_nat.simps) simp

lemma str_nat_nonempty: "str_nat n \<noteq> []"
  by (subst str_nat.simps) simp

lemma str_nat_inj: "str_nat n = str_nat m \<Longrightarrow> n = m"
proof (induction n arbitrary: m rule: str_nat.induct)
  case (1 n)
  show ?case
  proof (cases "n < 10")
    case True
    note n = str_nat_small [OF True]
    show ?thesis
    proof (cases "m < 10")
      case True
      from "1.prems" show ?thesis unfolding n str_nat_small [OF True] by simp
    next
      case False
      from "1.prems" have "str_nat (m div 10) = []"
        unfolding n str_nat_big [OF False] by (cases "str_nat (m div 10)") simp_all
      with str_nat_nonempty show ?thesis by blast
    qed
  next
    case False
    note n = str_nat_big [OF False]
    show ?thesis
    proof (cases "m < 10")
      case True
      from "1.prems" have "str_nat (n div 10) = []"
        unfolding n str_nat_small [OF True] by (cases "str_nat (n div 10)") simp_all
      with str_nat_nonempty show ?thesis by blast
    next
      case m: False
      from "1.prems" have e: "str_nat (n div 10) = str_nat (m div 10)" and r: "n mod 10 = m mod 10"
        unfolding n str_nat_big [OF m] by simp_all
      from "1.IH" [OF False e] have "n div 10 = m div 10" .
      with r show ?thesis by (metis div_mult_mod_eq)
    qed
  qed
qed

lemma numbered_inj: "numbered base n ext = numbered base m ext \<Longrightarrow> n = m"
  by (auto simp: numbered_def dest: str_nat_inj)

lemma with_name_inj: "with_name p a = with_name p b \<Longrightarrow> a = b"
  by (simp add: with_name_def)

definition taken :: "dir_state \<Rightarrow> (path \<times> path) list \<Rightarrow> path \<Rightarrow> path \<Rightarrow> bool" where
  "taken fs mapping p q = ((exists_path fs q \<and> q \<noteq> p) \<or> planned_for_other mapping p q)"

lemma finite_taken_counts:
  "finite {k. taken fs mapping p (with_name p (numbered base k ext))}"
proof -
  let ?h = "\<lambda>k. with_name p (numbered base k ext)"
  let ?F = "set (map fst fs) \<union> set (map snd mapping)"
  have inj: "inj ?h" by (rule injI) (auto dest: with_name_inj numbered_inj)
  have sub: "{k. taken fs mapping p (?h k)} \<subseteq> ?h -` ?F"
    by (auto simp: taken_def exists_path_def planned_for_other_def list_ex_iff image_iff)
       force+
  have "finite (?h -` ?F)" using inj by (intro finite_vimageI) simp_all
  with sub show ?thesis by (rule finite_subset)
qed

definition loop_measure ::
  "dir_state \<Rightarrow> (path \<times> path) list \<Rightarrow> path \<Rightarrow> ustr \<Rightarrow> ustr \<Rightarrow> nat \<Rightarrow> ustr \<Rightarrow> nat" where
  "loop_measure fs mapping p base ext count candidate_name =
     card {k. count < k \<and> taken fs mapping p (with_name p (numbered base k ext))}
     + (if taken fs mapping p (with_name p candidate_name) then 1 else 0)"

lemma loop_measure_decreases:
  assumes "taken fs mapping p (with_name p candidate_name)"
  shows "loop_measure fs mapping p base ext (count + 1) (numbered base (count + 1) ext)
         < loop_measure fs mapping p base ext count candidate_name"
proof -
  let ?T = "\<lambda>k. taken fs mapping p (with_name p (numbered base k ext))"
  let ?A = "{k. count < k \<and> ?T k}"
  let ?B = "{k. count + 1 < k \<and> ?T k}"
  have fin: "finite ?A" using finite_taken_counts [of fs mapping p base ext] by simp
  show ?thesis
  proof (cases "?T (count + 1)")
    case True
    have "?B \<subset> ?A" using True by auto
    then have "card ?B < card ?A" using fin by (rule psubset_card_mono [rotated])
    then show ?thesis using assms True by (simp add: loop_measure_def)
  next
    case False
    have "?B = ?A" using False by (auto simp: less_Suc_eq order.strict_iff_order Suc_le_eq)
    then show ?thesis using assms False by (simp add: loop_measure_def)
  qed
qed

text \<open>
  The \<open>while True\<close> loop of the planner: it returns the final \<open>count\<close> and
  \<open>candidate_name\<close>.
\<close>

function collision_loop ::
  "dir_state \<Rightarrow> (path \<times> path) list \<Rightarrow> path \<Rightarrow> ustr \<Rightarrow> ustr \<Rightarrow> nat \<Rightarrow> ustr \<Rightarrow> nat \<times> ustr" where
  "collision_loop fs mapping p new_title ext count candidate_name =
     (if exists_path fs (with_name p candidate_name) \<and> with_name p candidate_name \<noteq> p
      then collision_loop fs mapping p new_title ext (count + 1)
             (numbered new_title (count + 1) ext)
      else if planned_for_other mapping p (with_name p candidate_name)
      then collision_loop fs mapping p new_title ext (count + 1)
             (numbered new_title (count + 1) ext)
      else (count, candidate_name))"
  by pat_completeness auto
termination
proof (relation "measure (\<lambda>(fs, mapping, p, new_title, ext, count, candidate_name).
                   loop_measure fs mapping p new_title ext count candidate_name)")
  show "wf (measure (\<lambda>(fs, mapping, p, new_title, ext, count, candidate_name).
                   loop_measure fs mapping p new_title ext count candidate_name))" by simp
next
  fix fs :: dir_state and mapping p new_title ext count candidate_name
  assume "exists_path fs (with_name p candidate_name) \<and> with_name p candidate_name \<noteq> p"
  then have "taken fs mapping p (with_name p candidate_name)" by (simp add: taken_def)
  from loop_measure_decreases [OF this, of new_title ext count]
  show "((fs, mapping, p, new_title, ext, count + 1, numbered new_title (count + 1) ext),
         (fs, mapping, p, new_title, ext, count, candidate_name))
             \<in> measure (\<lambda>(fs, mapping, p, new_title, ext, count, candidate_name).
                   loop_measure fs mapping p new_title ext count candidate_name)"
    by simp
next
  fix fs :: dir_state and mapping p new_title ext count candidate_name
  assume "planned_for_other mapping p (with_name p candidate_name)"
  then have "taken fs mapping p (with_name p candidate_name)" by (simp add: taken_def)
  from loop_measure_decreases [OF this, of new_title ext count]
  show "((fs, mapping, p, new_title, ext, count + 1, numbered new_title (count + 1) ext),
         (fs, mapping, p, new_title, ext, count, candidate_name))
             \<in> measure (\<lambda>(fs, mapping, p, new_title, ext, count, candidate_name).
                   loop_measure fs mapping p new_title ext count candidate_name)"
    by simp
qed

declare collision_loop.simps [simp del]

subsection \<open>The planning loop\<close>

text \<open>
  The state of the \<open>for\<close> loop: \<open>mapping\<close> (the plan so far) and \<open>seen_new_names\<close>.
  \<open>plan_step\<close> is one iteration, \<open>plan_renames\<close> the loop over \<open>sorted(files)\<close>.
\<close>

type_synonym plan_state = "(path \<times> path) list \<times> (ustr \<rightharpoonup> nat)"

definition plan_step :: "ucd \<Rightarrow> dir_state \<Rightarrow> plan_state \<Rightarrow> path \<Rightarrow> plan_state" where
  "plan_step U fs st p =
     (let mapping = fst st;
          seen_new_names = snd st;
          new_title = extract_title U (path_stem p);
          new_name = new_title @ py_lower U (path_suffix p);
          count = (case seen_new_names new_name of None \<Rightarrow> 0 | Some c \<Rightarrow> c);
          found = collision_loop fs mapping p new_title (py_lower U (path_suffix p)) count new_name;
          dst_path = with_name p (snd found)
      in (mapping @ [(p, dst_path)], seen_new_names(new_name \<mapsto> fst found)))"

fun plan_loop :: "ucd \<Rightarrow> dir_state \<Rightarrow> plan_state \<Rightarrow> path list \<Rightarrow> plan_state" where
  "plan_loop U fs st [] = st"
| "plan_loop U fs st (p # files) = plan_loop U fs (plan_step U fs st p) files"

definition plan_renames :: "ucd \<Rightarrow> dir_state \<Rightarrow> path list \<Rightarrow> (path \<times> path) list" where
  "plan_renames U fs files = fst (plan_loop U fs ([], Map.empty) (sort files))"

text \<open>
  The invariant of the planning loop: no two entries with different sources share a
  destination, and a destination that exists is the entry's own source.
\<close>

definition plan_ok :: "dir_state \<Rightarrow> (path \<times> path) list \<Rightarrow> bool" where
  "plan_ok fs mapping =
     ((\<forall>(src1, dst1)\<in>set mapping. \<forall>(src2, dst2)\<in>set mapping. src1 \<noteq> src2 \<longrightarrow> dst1 \<noteq> dst2)
      \<and> (\<forall>(src, dst)\<in>set mapping. exists_path fs dst \<longrightarrow> dst = src))"

section \<open>Executor and reporter\<close>

text \<open>
  The operating system is a parameter. \<open>os_str\<close> is \<open>str(path)\<close>, and \<open>os_rename\<close> is
  \<open>src.rename(dst)\<close>: the new directory state, or \<open>Inl\<close> the text of the exception (the
  directory state as it was). The other fields say which library calls raise:
  \<^item> \<open>os_listing_error directory recursive\<close>: the \<open>OSError\<close> raised while the directory is
    listed (\<open>iterdir\<close>, \<open>rglob\<close>, \<open>is_file\<close>), for a reason other than a missing directory;
  \<^item> \<open>os_exists_error p\<close>: the \<open>OSError\<close> of \<open>p.exists()\<close> (a name that is too long, for
    example: \<open>Path.exists\<close> only swallows the errors that mean "no such file");
  \<^item> \<open>os_print_error text\<close>: the exception \<open>print(text)\<close> raises (\<open>UnicodeEncodeError\<close>);
  \<^item> \<open>os_open_error\<close>: the \<open>OSError\<close> of \<open>open(MAP_CSV, 'w', ...)\<close>;
  \<^item> \<open>os_writerow_error row\<close>: the exception \<open>writer.writerow(row)\<close> raises.

  None of these calls stands in a \<open>try\<close>, so an exception there ends the run. A run yields
  the directory state it leaves, the texts it printed (one per \<open>print\<close>), the rows of the log
  (\<open>None\<close> when the log was not opened) and the uncaught exception, if any.
\<close>

record os_iface =
  os_str :: "path \<Rightarrow> ustr"
  os_rename :: "dir_state \<Rightarrow> path \<Rightarrow> path \<Rightarrow> ustr + dir_state"
  os_listing_error :: "path \<Rightarrow> bool \<Rightarrow> ustr option"
  os_exists_error :: "path \<Rightarrow> ustr option"
  os_print_error :: "ustr \<Rightarrow> ustr option"
  os_open_error :: "ustr option"
  os_writerow_error :: "ustr list \<Rightarrow> ustr option"



text \<open>
  The planning loop with an \<open>exists()\<close> that may raise: the \<open>while True\<close> loop, one
  iteration of the \<open>for\<close> loop, and the \<open>for\<close> loop. Where no \<open>exists()\<close> raises these are
  \<open>collision_loop\<close>, \<open>plan_step\<close> and \<open>plan_renames\<close>, and a planning that ends without an
  exception has made the plan \<open>plan_renames\<close> (lemmas \<open>plan_renames_e_quiet\<close> and
  \<open>plan_renames_e_Inr\<close>).
\<close>

function collision_loop_e ::
  "os_iface \<Rightarrow> dir_state \<Rightarrow> (path \<times> path) list \<Rightarrow> path \<Rightarrow> ustr \<Rightarrow> ustr \<Rightarrow> nat \<Rightarrow> ustr
     \<Rightarrow> ustr + nat \<times> ustr" where
  "collision_loop_e os fs mapping p new_title ext count candidate_name =
     (case os_exists_error os (with_name p candidate_name) of
        Some e \<Rightarrow> Inl e
      | None \<Rightarrow>
          if exists_path fs (with_name p candidate_name) \<and> with_name p candidate_name \<noteq> p
          then collision_loop_e os fs mapping p new_title ext (count + 1)
                 (numbered new_title (count + 1) ext)
          else if planned_for_other mapping p (with_name p candidate_name)
          then collision_loop_e os fs mapping p new_title ext (count + 1)
                 (numbered new_title (count + 1) ext)
          else Inr (count, candidate_name))"
  by pat_completeness auto
termination
proof (relation "measure (\<lambda>(os, fs, mapping, p, new_title, ext, count, candidate_name).
                   loop_measure fs mapping p new_title ext count candidate_name)")
  show "wf (measure (\<lambda>(os, fs, mapping, p, new_title, ext, count, candidate_name).
                   loop_measure fs mapping p new_title ext count candidate_name))" by simp
next
  fix os :: os_iface and fs :: dir_state and mapping p new_title ext count candidate_name
  assume "exists_path fs (with_name p candidate_name) \<and> with_name p candidate_name \<noteq> p"
  then have "taken fs mapping p (with_name p candidate_name)" by (simp add: taken_def)
  from loop_measure_decreases [OF this, of new_title ext count]
  show "((os, fs, mapping, p, new_title, ext, count + 1, numbered new_title (count + 1) ext),
         (os, fs, mapping, p, new_title, ext, count, candidate_name))
             \<in> measure (\<lambda>(os, fs, mapping, p, new_title, ext, count, candidate_name).
                   loop_measure fs mapping p new_title ext count candidate_name)"
    by simp
next
  fix os :: os_iface and fs :: dir_state and mapping p new_title ext count candidate_name
  assume "planned_for_other mapping p (with_name p candidate_name)"
  then have "taken fs mapping p (with_name p candidate_name)" by (simp add: taken_def)
  from loop_measure_decreases [OF this, of new_title ext count]
  show "((os, fs, mapping, p, new_title, ext, count + 1, numbered new_title (count + 1) ext),
         (os, fs, mapping, p, new_title, ext, count, candidate_name))
             \<in> measure (\<lambda>(os, fs, mapping, p, new_title, ext, count, candidate_name).
                   loop_measure fs mapping p new_title ext count candidate_name)"
    by simp
qed

declare collision_loop_e.simps [simp del]

definition plan_step_e :: "os_iface \<Rightarrow> ucd \<Rightarrow> dir_state \<Rightarrow> plan_state \<Rightarrow> path \<Rightarrow> ustr + plan_state" where
  "plan_step_e os U fs st p =
     (let mapping = fst st;
          seen_new_names = snd st;
          new_title = extract_title U (path_stem p);
          new_name = new_title @ py_lower U (path_suffix p);
          count = (case seen_new_names new_name of None \<Rightarrow> 0 | Some c \<Rightarrow> c)
      in case collision_loop_e os fs mapping p new_title (py_lower U (path_suffix p)) count new_name of
           Inl e \<Rightarrow> Inl e
         | Inr found \<Rightarrow>
             Inr (mapping @ [(p, with_name p (snd found))], seen_new_names(new_name \<mapsto> fst found)))"

fun plan_loop_e :: "os_iface \<Rightarrow> ucd \<Rightarrow> dir_state \<Rightarrow> plan_state \<Rightarrow> path list \<Rightarrow> ustr + plan_state" where
  "plan_loop_e os U fs st [] = Inr st"
| "plan_loop_e os U fs st (p # files) =
     (case plan_step_e os U fs st p of
        Inl e \<Rightarrow> Inl e
      | Inr st' \<Rightarrow> plan_loop_e os U fs st' files)"

definition plan_renames_e ::
  "os_iface \<Rightarrow> ucd \<Rightarrow> dir_state \<Rightarrow> path list \<Rightarrow> ustr + (path \<times> path) list" where
  "plan_renames_e os U fs files =
     (case plan_loop_e os U fs ([], Map.empty) (sort files) of
        Inl e \<Rightarrow> Inl e
      | Inr st \<Rightarrow> Inr (fst st))"







section \<open>The score in the words of the specification\<close>



section \<open>Properties of the title extractor\<close>

declare re_sub.simps [simp del] re_split_from.simps [simp del]

subsection \<open>Helper lemmas: substitution of a class, \<open>strip\<close>\<close>

lemma re_sub_cls_filter: "re_sub (re_cls P re_end) [] s = filter (\<lambda>c. \<not> P c) s"
proof (induction s)
  case Nil
  show ?case by (subst re_sub.simps) (simp add: re_cls_def)
next
  case (Cons c cs)
  show ?case by (subst re_sub.simps) (simp add: re_cls_def re_end_def Cons.IH)
qed

lemma set_strip_by: "set (strip_by P s) \<subseteq> set s"
proof
  fix x assume "x \<in> set (strip_by P s)"
  then have "x \<in> set (dropWhile P (rev (dropWhile P s)))" by (simp add: strip_by_def)
  then have "x \<in> set (rev (dropWhile P s))" by (rule set_dropWhileD)
  then have "x \<in> set (dropWhile P s)" by simp
  then show "x \<in> set s" by (rule set_dropWhileD)
qed

lemma dropWhile_snoc_keep: "\<not> P x \<Longrightarrow> dropWhile P (ys @ [x]) = dropWhile P ys @ [x]"
  by (induction ys) auto

lemma dropWhile_head: "dropWhile P xs = c # cs \<Longrightarrow> \<not> P c"
  using hd_dropWhile [of P xs] by auto

lemma strip_by_head:
  assumes a: "strip_by P s = c # cs"
  shows "\<not> P c"
proof (cases "dropWhile P s")
  case Nil
  have "strip_by P s = []" unfolding strip_by_def Nil by simp
  with a show ?thesis by simp
next
  case (Cons x xs)
  have nx: "\<not> P x" using Cons by (rule dropWhile_head)
  have "strip_by P s = x # rev (dropWhile P (rev xs))"
    unfolding strip_by_def Cons using nx by (simp add: dropWhile_snoc_keep)
  with a have "c = x" by simp
  with nx show ?thesis by simp
qed

lemma strip_by_last: "strip_by P s = cs @ [c] \<Longrightarrow> \<not> P c"
proof -
  assume "strip_by P s = cs @ [c]"
  then have "rev (dropWhile P (rev (dropWhile P s))) = cs @ [c]" by (simp add: strip_by_def)
  then have "rev (rev (dropWhile P (rev (dropWhile P s)))) = rev (cs @ [c])" by (rule arg_cong)
  then have "dropWhile P (rev (dropWhile P s)) = c # rev cs" by simp
  then show ?thesis by (rule dropWhile_head)
qed

lemma dropWhile_id: "(\<And>c cs. xs = c # cs \<Longrightarrow> \<not> P c) \<Longrightarrow> dropWhile P xs = xs"
  by (cases xs) auto

lemma strip_by_idem: "strip_by P (strip_by P s) = strip_by P s"
proof -
  define r where "r = strip_by P s"
  have h: "dropWhile P r = r"
    by (rule dropWhile_id) (auto simp: r_def dest: strip_by_head)
  have l: "dropWhile P (rev r) = rev r"
  proof (rule dropWhile_id)
    fix c cs assume "rev r = c # cs"
    then have "rev (rev r) = rev (c # cs)" by (rule arg_cong)
    then have "strip_by P s = rev cs @ [c]" by (simp add: r_def)
    then show "\<not> P c" by (rule strip_by_last)
  qed
  have "strip_by P r = r" by (simp add: strip_by_def h l)
  then show ?thesis by (simp add: r_def)
qed

lemma strip_by_keeps: "x \<in> set s \<Longrightarrow> \<not> P x \<Longrightarrow> x \<in> set (strip_by P s)"
proof -
  assume xs: "x \<in> set s" and nx: "\<not> P x"
  have k: "\<And>t. x \<in> set t \<Longrightarrow> x \<in> set (dropWhile P t)"
  proof -
    fix t assume "x \<in> set t"
    then show "x \<in> set (dropWhile P t)" using nx by (induction t) auto
  qed
  have "x \<in> set (dropWhile P s)" using xs by (rule k)
  then have "x \<in> set (rev (dropWhile P s))" by simp
  then have "x \<in> set (dropWhile P (rev (dropWhile P s)))" by (rule k)
  then show ?thesis by (simp add: strip_by_def)
qed

text \<open>The definitions that evaluate the model on a concrete string.\<close>

lemmas char_defs = is_AZ_def is_az_def is_09_def is_space_def is_word_def is_upper_def ascii_lower_def sre_lower_def
  is_emoji_def is_edge_punct_def is_illegal_def is_latin_def is_separator_def ci_letter_def
lemmas re_defs = re_end_def re_cls_def re_plus_def re_eol_def re_sub_bos_def re_split_def re_sub.simps re_split_from.simps
lemmas fn_defs = ustr_def py_lower_def strip_by_def py_strip_def starts_with_def EMOJI_PATTERN_def
  remove_known_tags_def remove_emojis_def strip_brackets_and_parentheses_def strip_leading_noise_def
  strip_trailing_noise_def sanitize_whitespace_and_punct_def make_safe_filename_def TAGS_def starts_upper_def
  score_def sort_reverse_def choose_best_segment_def allcaps_prefix_match_def has_separator_def drop_allcaps_prefix_def
  findall_words_def

lemma make_safe_filename_eq: "make_safe_filename s = py_strip (filter (\<lambda>c. \<not> is_illegal c) s)"
  by (simp add: make_safe_filename_def re_sub_cls_filter)

lemma make_safe_filename_legal: "c \<in> set (make_safe_filename s) \<Longrightarrow> \<not> is_illegal c"
proof -
  assume "c \<in> set (make_safe_filename s)"
  then have "c \<in> set (strip_by is_space (filter (\<lambda>c. \<not> is_illegal c) s))"
    by (simp add: make_safe_filename_eq py_strip_def)
  then have "c \<in> set (filter (\<lambda>c. \<not> is_illegal c) s)"
    using set_strip_by by blast
  then show ?thesis by simp
qed

lemma extract_title_cases:
  "extract_title U s = title_pipeline U s \<or> extract_title U s = make_safe_filename s"
  by (simp add: extract_title_def Let_def)

lemma extract_title_safe: "\<exists>t. extract_title U s = make_safe_filename t"
proof -
  have "\<exists>t. title_pipeline U s = make_safe_filename t"
    unfolding title_pipeline_def Let_def by (rule exI) (rule refl)
  then show ?thesis using extract_title_cases [of U s] by auto
qed

subsection \<open>The safe-name stage\<close>

text \<open>
  C8: for every string \<open>s\<close>, \<open>make_safe_filename (make_safe_filename s)\<close> equals
  \<open>make_safe_filename s\<close>.
\<close>

theorem make_safe_filename_idempotent:
  "make_safe_filename (make_safe_filename s) = make_safe_filename s"
proof -
  define t where "t = make_safe_filename s"
  have "filter (\<lambda>c. \<not> is_illegal c) t = t"
    by (rule filter_True) (auto simp: t_def dest: make_safe_filename_legal)
  then have "make_safe_filename t = py_strip t" by (simp add: make_safe_filename_eq)
  also have "\<dots> = t" by (simp add: t_def make_safe_filename_eq py_strip_def strip_by_idem)
  finally show ?thesis by (simp add: t_def)
qed

text \<open>
  C10: for every input string, the result of \<open>extract_title\<close> neither starts nor ends with
  a whitespace character: both the pipeline and the fallback end with
  \<open>make_safe_filename\<close>, which strips.
\<close>

theorem extract_title_no_surrounding_whitespace:
  "\<not> (\<exists>c cs. is_space c \<and> (extract_title U s = c # cs \<or> extract_title U s = cs @ [c]))"
proof -
  obtain t where t: "extract_title U s = make_safe_filename t"
    using extract_title_safe by blast
  have r: "extract_title U s = strip_by is_space (filter (\<lambda>c. \<not> is_illegal c) t)"
    by (simp add: t make_safe_filename_eq py_strip_def)
  show ?thesis
    unfolding r using strip_by_head strip_by_last by blast
qed

text \<open>
  C3: for every input string (the empty string, pure punctuation and pure emoji included)
  the result of \<open>extract_title\<close> contains none of the characters \<open><>:"/\|?*\<close> (code points
  3C, 3E, 3A, 22, 2F, 5C, 7C, 3F, 2A) and no control character U+0000 to U+001F.
  \<open>extract_title\<close> is a total function: every recursion of the model has its termination
  proof, and the model has no failing branch because the source has none (\<open>scored[0]\<close> is
  guarded by \<open>if scored\<close>, \<open>m.group(2)\<close> by \<open>if m\<close>, and \<open>w[0]\<close> reads a match of \<open>\w+\<close>).
\<close>

theorem extract_title_no_illegal_characters:
  "set (extract_title U s) \<inter> ({0x3C, 0x3E, 0x3A, 0x22, 0x2F, 0x5C, 0x7C, 0x3F, 0x2A} \<union> {c. c \<le> 0x1F}) = {}"
proof -
  obtain t where t: "extract_title U s = make_safe_filename t"
    using extract_title_safe by blast
  have "\<And>c. c \<in> set (extract_title U s) \<Longrightarrow> \<not> is_illegal c"
    unfolding t by (rule make_safe_filename_legal)
  then show ?thesis by (auto simp: is_illegal_def)
qed

text \<open>
  C2, as amended: if the stem contains at least one character that is neither one of
  \<open><>:"/\|?*\<close>, nor a control character U+0000 to U+001F, nor whitespace, then
  \<open>extract_title\<close> returns a non-empty string.
\<close>

theorem extract_title_nonempty:
  assumes "\<exists>c\<in>set s. \<not> is_illegal c \<and> \<not> is_space c"
  shows "extract_title U s \<noteq> []"
proof -
  from assms obtain c where c: "c \<in> set s" "\<not> is_illegal c" "\<not> is_space c" by blast
  have "c \<in> set (filter (\<lambda>c. \<not> is_illegal c) s)" using c by simp
  then have "c \<in> set (make_safe_filename s)"
    unfolding make_safe_filename_eq py_strip_def using c(3) by (rule strip_by_keeps)
  then have "make_safe_filename s \<noteq> []" by auto
  then show ?thesis by (simp add: extract_title_def Let_def)
qed

text \<open>The amended C2 at the stem \<open>a b\<close>.\<close>

theorem extract_title_nonempty_witness:
  "(\<exists>c\<in>set (ustr ''a b''). \<not> is_illegal c \<and> \<not> is_space c) \<and> extract_title ascii_ucd (ustr ''a b'') \<noteq> []"
proof -
  have h: "\<exists>c\<in>set (ustr ''a b''). \<not> is_illegal c \<and> \<not> is_space c"
    by (simp add: ustr_def is_illegal_def is_space_def)
  show ?thesis using h extract_title_nonempty [OF h, of ascii_ucd] by simp
qed

text \<open>The pipeline, one stage at a time: how it is evaluated on a concrete stem.\<close>

lemma title_pipeline_stages:
  assumes "map (\<lambda>c. if c = 0x5F then 0x20 else c) stem = s1"
    and "remove_emojis s1 = s2"
    and "remove_known_tags U s2 = s3"
    and "strip_brackets_and_parentheses s3 = s4"
    and "strip_leading_noise U s4 = s5"
    and "(if has_separator s5
          then choose_best_segment U
                 (re_split (re_cls is_space (re_cls is_separator (re_cls is_space re_end))) s5)
          else drop_allcaps_prefix s5) = s6"
    and "remove_emojis s6 = s7"
    and "sanitize_whitespace_and_punct s7 = s8"
    and "strip_trailing_noise U s8 = s9"
    and "make_safe_filename s9 = r"
  shows "title_pipeline U stem = r"
  unfolding title_pipeline_def Let_def
  unfolding assms(1) assms(2) assms(3) assms(4) assms(5) assms(6) assms(7) assms(8) assms(9) assms(10)
  by (rule refl)

lemma title_pipeline_blank: "title_pipeline U [32] = []"
proof (rule title_pipeline_stages)
  show "map (\<lambda>c. if c = 0x5F then 0x20 else c) [32] = [32::nat]" by simp
  show "remove_emojis [32] = [32]" by (simp add: char_defs re_defs fn_defs)
  show "remove_known_tags U [32] = [32]" by (simp add: char_defs re_defs fn_defs)
  show "strip_brackets_and_parentheses [32] = [32]" by (simp add: char_defs re_defs fn_defs)
  show "strip_leading_noise U [32] = []" by (simp add: char_defs re_defs fn_defs)
  show "(if has_separator []
          then choose_best_segment U
                 (re_split (re_cls is_space (re_cls is_separator (re_cls is_space re_end))) [])
          else drop_allcaps_prefix []) = []" by (simp add: char_defs re_defs fn_defs)
  show "remove_emojis [] = []" by (simp add: char_defs re_defs fn_defs)
  show "sanitize_whitespace_and_punct [] = []" by (simp add: char_defs re_defs fn_defs)
  show "strip_trailing_noise U [] = []" by (simp add: char_defs re_defs fn_defs)
  show "make_safe_filename [] = []" by (simp add: char_defs re_defs fn_defs)
qed

text \<open>
  C2 as stated fails: the stem that is one space holds a character that is filesystem-legal
  (a space is none of \<open><>:"/\|?*\<close> and not a control character), and \<open>extract_title\<close>
  returns the empty string, because the fallback \<open>make_safe_filename\<close> strips whitespace.
\<close>

theorem extract_title_blank_counterexample:
  "\<not> is_illegal 32 \<and> 32 \<in> set [32::nat] \<and> extract_title ascii_ucd [32] = []"
proof -
  have "make_safe_filename [32] = []" by (simp add: char_defs re_defs fn_defs)
  then show ?thesis by (simp add: extract_title_def title_pipeline_blank is_illegal_def)
qed

subsection \<open>The all-caps-prefix branch\<close>

text \<open>What \<open>X{lo,hi}\<close> leaves to the rest of the pattern is a suffix of the input.\<close>

lemma re_rep_suffix:
  "re_rep P lo hi k s = Some g \<Longrightarrow> \<exists>p r. s = p @ r \<and> k r = Some g"
proof (induction s arbitrary: lo hi)
  case Nil
  then show ?case by (auto split: if_splits)
next
  case (Cons c cs)
  show ?case
  proof (cases "0 < hi \<and> P c")
    case True
    show ?thesis
    proof (cases "re_rep P (lo - 1) (hi - 1) k cs")
      case None
      with True Cons.prems have "k (c # cs) = Some g" by (auto split: if_splits)
      then show ?thesis by (metis append_Nil)
    next
      case (Some r)
      with True Cons.prems have "re_rep P (lo - 1) (hi - 1) k cs = Some g" by auto
      then obtain p r where "cs = p @ r" "k r = Some g" using Cons.IH by blast
      then have "c # cs = (c # p) @ r \<and> k r = Some g" by simp
      then show ?thesis by blast
    qed
  next
    case False
    with Cons.prems have "k (c # cs) = Some g" by (auto split: if_splits)
    then show ?thesis by (metis append_Nil)
  qed
qed

lemma count_dropWhile_le: "length (filter Q (dropWhile P t)) \<le> length (filter Q t)"
proof -
  have "length (filter Q t) = length (filter Q (takeWhile P t @ dropWhile P t))" by simp
  also have "\<dots> = length (filter Q (takeWhile P t)) + length (filter Q (dropWhile P t))"
    by (simp only: filter_append length_append)
  finally show ?thesis by simp
qed

lemma count_rev: "length (filter Q (rev t)) = length (filter Q t)"
  by (simp add: rev_filter [symmetric])

lemma count_strip_by_le: "length (filter Q (strip_by P t)) \<le> length (filter Q t)"
proof -
  have "length (filter Q (strip_by P t)) = length (filter Q (dropWhile P (rev (dropWhile P t))))"
    by (simp add: strip_by_def count_rev)
  also have "\<dots> \<le> length (filter Q (rev (dropWhile P t)))" by (rule count_dropWhile_le)
  also have "\<dots> = length (filter Q (dropWhile P t))" by (rule count_rev)
  also have "\<dots> \<le> length (filter Q t)" by (rule count_dropWhile_le)
  finally show ?thesis .
qed

lemma count_take_le: "length (filter Q (take n t)) \<le> length (filter Q t)"
proof -
  have "length (filter Q t) = length (filter Q (take n t @ drop n t))" by simp
  also have "\<dots> = length (filter Q (take n t)) + length (filter Q (drop n t))"
    by (simp only: filter_append length_append)
  finally show ?thesis by simp
qed

lemma allcaps_candidate_le:
  assumes "allcaps_prefix_match s = Some g2"
  shows "length (filter Q (py_strip g2)) \<le> length (filter Q s)"
proof -
  define K where "K = (\<lambda>r. case re_plus is_space (re_plus (\<lambda>c. c \<noteq> 10) (re_eol re_end)) r of
               None \<Rightarrow> None
             | Some r' \<Rightarrow> Some (take (length r - length r') r))"
  have "re_rep is_AZ 2 20 K s = Some g2"
    using assms by (simp add: allcaps_prefix_match_def K_def)
  then have "\<exists>p r. s = p @ r \<and> K r = Some g2" by (rule re_rep_suffix)
  then obtain p r where s: "s = p @ r" and k: "K r = Some g2" by blast
  from k obtain n where g2: "g2 = take n r" by (auto simp: K_def split: option.splits)
  have "length (filter Q (py_strip g2)) \<le> length (filter Q g2)"
    unfolding py_strip_def by (rule count_strip_by_le)
  also have "\<dots> \<le> length (filter Q r)" unfolding g2 by (rule count_take_le)
  also have "\<dots> \<le> length (filter Q s)" unfolding s by simp
  finally show ?thesis .
qed

lemma drop_allcaps_prefix_id: "drop_allcaps_prefix s = s"
proof (cases "allcaps_prefix_match s")
  case None
  then show ?thesis by (simp add: drop_allcaps_prefix_def)
next
  case (Some g2)
  have "ascii_letter_count (py_strip g2) \<le> ascii_letter_count s"
    unfolding ascii_letter_count_def using Some by (rule allcaps_candidate_le)
  then show ?thesis by (simp add: drop_allcaps_prefix_def Some Let_def)
qed

lemma title_pipeline_without_drop_eq: "title_pipeline U s = title_pipeline_without_drop U s"
  unfolding title_pipeline_def title_pipeline_without_drop_def drop_allcaps_prefix_id
  by (rule refl)

text \<open>
  C9: whenever the pattern \<open>^([A-Z]{2,20})(\s+.+)$\<close> matches, the trimmed group 2 has no more
  letters than the whole string (it is a part of it), so the all-caps-prefix branch never
  changes the string, and \<open>extract_title\<close> equals its variant without that branch.
\<close>

theorem allcaps_prefix_drop_is_dead:
  "(case allcaps_prefix_match s of
      None \<Rightarrow> True
    | Some g2 \<Rightarrow> ascii_letter_count (py_strip g2) \<le> ascii_letter_count s)
   \<and> drop_allcaps_prefix s = s
   \<and> extract_title U s = extract_title_without_drop U s"
proof -
  have a: "case allcaps_prefix_match s of
      None \<Rightarrow> True
    | Some g2 \<Rightarrow> ascii_letter_count (py_strip g2) \<le> ascii_letter_count s"
    by (auto simp: ascii_letter_count_def split: option.splits intro: allcaps_candidate_le)
  have c: "extract_title U s = extract_title_without_drop U s"
    by (simp add: extract_title_def extract_title_without_drop_def title_pipeline_without_drop_eq)
  show ?thesis using a drop_allcaps_prefix_id c by blast
qed

lemma allcaps_match_tacos:
  "allcaps_prefix_match (ustr ''SPANISH Learn To Cook Tacos'') = Some (ustr '' Learn To Cook Tacos'')"
  by (simp add: char_defs re_defs fn_defs)

text \<open>C9 where the pattern does match: 16 letters in the candidate, 23 in the string.\<close>

theorem allcaps_prefix_drop_is_dead_witness:
  "allcaps_prefix_match (ustr ''SPANISH Learn To Cook Tacos'') = Some (ustr '' Learn To Cook Tacos'')
   \<and> ascii_letter_count (py_strip (ustr '' Learn To Cook Tacos'')) = 16
   \<and> ascii_letter_count (ustr ''SPANISH Learn To Cook Tacos'') = 23
   \<and> drop_allcaps_prefix (ustr ''SPANISH Learn To Cook Tacos'') = ustr ''SPANISH Learn To Cook Tacos''"
proof -
  have 1: "ascii_letter_count (py_strip (ustr '' Learn To Cook Tacos'')) = 16"
    by (simp add: ascii_letter_count_def char_defs fn_defs)
  have 2: "ascii_letter_count (ustr ''SPANISH Learn To Cook Tacos'') = 23"
    by (simp add: ascii_letter_count_def char_defs fn_defs)
  show ?thesis
    using allcaps_prefix_drop_is_dead [of "ustr ''SPANISH Learn To Cook Tacos''" ascii_ucd]
      allcaps_match_tacos 1 2 by simp
qed

subsection \<open>Two stems, stage by stage\<close>

lemma title_tacos_stages:
  "map (\<lambda>c. if c = 0x5F then 0x20 else c) (ustr ''SPANISH Learn To Cook Tacos'') = ustr ''SPANISH Learn To Cook Tacos''"
  "remove_emojis (ustr ''SPANISH Learn To Cook Tacos'') = ustr ''SPANISH Learn To Cook Tacos''"
  "remove_known_tags U (ustr ''SPANISH Learn To Cook Tacos'') = ustr ''SPANISH Learn To Cook Tacos''"
  "strip_brackets_and_parentheses (ustr ''SPANISH Learn To Cook Tacos'') = ustr ''SPANISH Learn To Cook Tacos''"
  "strip_leading_noise U (ustr ''SPANISH Learn To Cook Tacos'') = ustr ''SPANISH Learn To Cook Tacos''"
  "has_separator (ustr ''SPANISH Learn To Cook Tacos'') = False"
  "drop_allcaps_prefix (ustr ''SPANISH Learn To Cook Tacos'') = ustr ''SPANISH Learn To Cook Tacos''"
  "sanitize_whitespace_and_punct (ustr ''SPANISH Learn To Cook Tacos'') = ustr ''SPANISH Learn To Cook Tacos''"
  "strip_trailing_noise U (ustr ''SPANISH Learn To Cook Tacos'') = ustr ''SPANISH Learn To Cook Tacos''"
  "make_safe_filename (ustr ''SPANISH Learn To Cook Tacos'') = ustr ''SPANISH Learn To Cook Tacos''"
  by (simp_all add: char_defs re_defs fn_defs ascii_letter_count_def)

text \<open>
  C1: the claim is that for the stem \<open>SPANISH Learn To Cook Tacos\<close> (no separator)
  \<open>extract_title\<close> drops the leading all-caps token and returns \<open>Learn To Cook Tacos\<close>.
  The code returns the stem unchanged: the pattern matches, but the candidate is adopted only
  if it has more letters than the string it is a part of (16 against 23).
\<close>

theorem extract_title_keeps_allcaps_prefix:
  "extract_title U (ustr ''SPANISH Learn To Cook Tacos'') = ustr ''SPANISH Learn To Cook Tacos''
   \<and> extract_title U (ustr ''SPANISH Learn To Cook Tacos'') \<noteq> ustr ''Learn To Cook Tacos''"
proof -
  have p: "title_pipeline U (ustr ''SPANISH Learn To Cook Tacos'') = ustr ''SPANISH Learn To Cook Tacos''"
    unfolding title_pipeline_def Let_def title_tacos_stages if_False by (rule refl)
  have n: "ustr ''SPANISH Learn To Cook Tacos'' \<noteq> []"
    "ustr ''SPANISH Learn To Cook Tacos'' \<noteq> ustr ''Learn To Cook Tacos''" by (simp_all add: ustr_def)
  show ?thesis unfolding extract_title_def Let_def p using n by simp
qed

lemma title_episode_stages:
  "map (\<lambda>c. if c = 0x5F then 0x20 else c) (ustr ''SPANISH PODCAST - My Great Episode (128kbit_AAC)'')
     = ustr ''SPANISH PODCAST - My Great Episode (128kbit AAC)''"
  "remove_emojis (ustr ''SPANISH PODCAST - My Great Episode (128kbit AAC)'')
     = ustr ''SPANISH PODCAST - My Great Episode (128kbit AAC)''"
  "remove_known_tags U (ustr ''SPANISH PODCAST - My Great Episode (128kbit AAC)'')
     = ustr ''SPANISH PODCAST - My Great Episode (128kbit AAC)''"
  "strip_brackets_and_parentheses (ustr ''SPANISH PODCAST - My Great Episode (128kbit AAC)'')
     = ustr ''SPANISH PODCAST - My Great Episode''"
  "strip_leading_noise U (ustr ''SPANISH PODCAST - My Great Episode'')
     = ustr ''SPANISH PODCAST - My Great Episode''"
  "has_separator (ustr ''SPANISH PODCAST - My Great Episode'') = True"
  "re_split (re_cls is_space (re_cls is_separator (re_cls is_space re_end)))
     (ustr ''SPANISH PODCAST - My Great Episode'') = [ustr ''SPANISH PODCAST'', ustr ''My Great Episode'']"
  "remove_emojis (ustr ''My Great Episode'') = ustr ''My Great Episode''"
  "sanitize_whitespace_and_punct (ustr ''My Great Episode'') = ustr ''My Great Episode''"
  "strip_trailing_noise U (ustr ''My Great Episode'') = ustr ''My Great Episode''"
  "make_safe_filename (ustr ''My Great Episode'') = ustr ''My Great Episode''"
  by (simp_all add: char_defs re_defs fn_defs)

lemma score_episode:
  "score U (ustr ''SPANISH PODCAST'') = 14"
  "score U (ustr ''My Great Episode'') = 29"
  by (simp_all add: char_defs re_defs fn_defs)

lemma choose_episode:
  "choose_best_segment U [ustr ''SPANISH PODCAST'', ustr ''My Great Episode''] = ustr ''My Great Episode''"
  unfolding choose_best_segment_def sort_reverse_def list.map score_episode
  by (simp add: py_strip_def strip_by_def ustr_def is_space_def)


text \<open>
  C5: for the stem \<open>SPANISH PODCAST - My Great Episode (128kbit_AAC)\<close> the string that
  reaches the segmentation decision has a separator (so the split path is taken, not the
  all-caps-prefix path), bracket stripping removes the trailing parenthetical, the scorer
  ranks the right segment above the left one (29 against 14), and the title is
  \<open>My Great Episode\<close>.
\<close>

theorem extract_title_separator_precedence:
  "has_separator (strip_leading_noise U (strip_brackets_and_parentheses (remove_known_tags U
     (remove_emojis (map (\<lambda>c. if c = 0x5F then 0x20 else c)
        (ustr ''SPANISH PODCAST - My Great Episode (128kbit_AAC)''))))))
   \<and> strip_brackets_and_parentheses (ustr ''SPANISH PODCAST - My Great Episode (128kbit AAC)'')
       = ustr ''SPANISH PODCAST - My Great Episode''
   \<and> score U (ustr ''SPANISH PODCAST'') < score U (ustr ''My Great Episode'')
   \<and> choose_best_segment U [ustr ''SPANISH PODCAST'', ustr ''My Great Episode'']
       = ustr ''My Great Episode''
   \<and> extract_title U (ustr ''SPANISH PODCAST - My Great Episode (128kbit_AAC)'')
       = ustr ''My Great Episode''"
proof -
  have a: "has_separator (strip_leading_noise U (strip_brackets_and_parentheses (remove_known_tags U
     (remove_emojis (map (\<lambda>c. if c = 0x5F then 0x20 else c)
        (ustr ''SPANISH PODCAST - My Great Episode (128kbit_AAC)''))))))"
    unfolding title_episode_stages by (rule TrueI)
  have b: "score U (ustr ''SPANISH PODCAST'') < score U (ustr ''My Great Episode'')"
    unfolding score_episode by simp
  have p: "title_pipeline U (ustr ''SPANISH PODCAST - My Great Episode (128kbit_AAC)'')
             = ustr ''My Great Episode''"
    unfolding title_pipeline_def Let_def title_episode_stages if_True choose_episode
    by (rule refl)
  have n: "ustr ''My Great Episode'' \<noteq> []" by (simp add: ustr_def)
  have e: "extract_title U (ustr ''SPANISH PODCAST - My Great Episode (128kbit_AAC)'')
             = ustr ''My Great Episode''"
    unfolding extract_title_def Let_def p using n by simp
  show ?thesis using a title_episode_stages(4) b choose_episode e by blast
qed

subsection \<open>The segment scorer\<close>













section \<open>Properties of the batch planner\<close>

text \<open>
  Every name the planner passes to \<open>with_name\<close> is valid: the title has no slash, the
  number is written in digits, and the name ends with an extension of four characters.
\<close>

lemma str_nat_digits: "c \<in> set (str_nat n) \<Longrightarrow> 48 \<le> c \<and> c \<le> 57"
proof (induction n rule: str_nat.induct)
  case (1 n)
  show ?case
  proof (cases "n < 10")
    case True
    with "1.prems" show ?thesis by (simp add: str_nat_small)
  next
    case False
    have "n mod 10 < 10" by simp
    with "1.prems" "1.IH" [OF False] False show ?thesis
      by (auto simp: str_nat_big)
  qed
qed

lemma extension_shape:
  "ext \<in> set EXTENSIONS \<Longrightarrow> length ext = 4 \<and> 0x2F \<notin> set ext"
  by (auto simp: EXTENSIONS_def ustr_def)

lemma extract_title_no_slash: "0x2F \<notin> set (extract_title U s)"
proof
  assume a: "0x2F \<in> set (extract_title U s)"
  obtain t where "extract_title U s = make_safe_filename t" using extract_title_safe by blast
  with a have "\<not> is_illegal 0x2F" by (auto dest: make_safe_filename_legal)
  then show False by (simp add: is_illegal_def)
qed

lemma candidate_names_valid:
  assumes "ext \<in> set EXTENSIONS"
  shows "valid_name (extract_title U s @ ext)
         \<and> valid_name (numbered (extract_title U s) count ext)"
proof -
  from assms have len: "length ext = 4" and ns: "0x2F \<notin> set ext"
    using extension_shape by blast+
  have t: "0x2F \<notin> set (extract_title U s)" by (rule extract_title_no_slash)
  have d: "0x2F \<notin> set (str_nat count)" using str_nat_digits [of "0x2F" count] by auto
  have l1: "length (extract_title U s @ ext) \<ge> 4" using len by simp
  have l2: "length (numbered (extract_title U s) count ext) \<ge> 4" using len by (simp add: numbered_def)
  have long: "\<And>name. 4 \<le> length name \<Longrightarrow> name \<noteq> [] \<and> name \<noteq> [0x2E::nat]"
    by auto
  have a: "valid_name (extract_title U s @ ext)"
    unfolding valid_name_def using long [OF l1] t ns by simp
  have "0x2F \<notin> set (numbered (extract_title U s) count ext)"
    using t ns d by (simp add: numbered_def ustr_def)
  then have b: "valid_name (numbered (extract_title U s) count ext)"
    unfolding valid_name_def using long [OF l2] by simp
  from a b show ?thesis by blast
qed

text \<open>Where the loop stops, neither of its two tests holds.\<close>

lemma collision_loop_free:
  "collision_loop fs mapping p new_title ext count candidate_name = (c, n) \<Longrightarrow>
     \<not> (exists_path fs (with_name p n) \<and> with_name p n \<noteq> p)
     \<and> \<not> planned_for_other mapping p (with_name p n)"
proof (induction fs mapping p new_title ext count candidate_name rule: collision_loop.induct)
  case (1 fs mapping p new_title ext count candidate_name)
  show ?case
  proof (cases "exists_path fs (with_name p candidate_name) \<and> with_name p candidate_name \<noteq> p")
    case True
    with "1.prems" have "collision_loop fs mapping p new_title ext (count + 1)
             (numbered new_title (count + 1) ext) = (c, n)"
      by (subst (asm) collision_loop.simps) (auto split: if_splits)
    with True show ?thesis by (rule "1.IH"(1))
  next
    case False
    show ?thesis
    proof (cases "planned_for_other mapping p (with_name p candidate_name)")
      case True
      with False "1.prems" have "collision_loop fs mapping p new_title ext (count + 1)
             (numbered new_title (count + 1) ext) = (c, n)"
        by (subst (asm) collision_loop.simps) (auto split: if_splits)
      with False True show ?thesis by (rule "1.IH"(2))
    next
      case np: False
      with False "1.prems" have "n = candidate_name"
        by (subst (asm) collision_loop.simps) (auto split: if_splits)
      with False np show ?thesis by simp
    qed
  qed
qed

lemma parent_with_name: "parent (with_name p n) = parent p"
  by (simp add: parent_def with_name_def)

lemma plan_step_mapping:
  "\<exists>n. fst (plan_step U fs st p) = fst st @ [(p, with_name p n)]
       \<and> \<not> (exists_path fs (with_name p n) \<and> with_name p n \<noteq> p)
       \<and> \<not> planned_for_other (fst st) p (with_name p n)"
proof -
  define new_title where "new_title = extract_title U (path_stem p)"
  define ext where "ext = py_lower U (path_suffix p)"
  define count where "count = (case snd st (new_title @ ext) of None \<Rightarrow> 0 | Some c \<Rightarrow> c)"
  define found where "found = collision_loop fs (fst st) p new_title ext count (new_title @ ext)"
  have f: "collision_loop fs (fst st) p new_title ext count (new_title @ ext) = (fst found, snd found)"
    by (simp add: found_def)
  have m: "fst (plan_step U fs st p) = fst st @ [(p, with_name p (snd found))]"
    by (simp add: plan_step_def Let_def found_def count_def ext_def new_title_def)
  from collision_loop_free [OF f] m show ?thesis by blast
qed

lemma plan_step_ok:
  assumes ex: "exists_path fs p" and ok: "plan_ok fs (fst st)"
  shows "plan_ok fs (fst (plan_step U fs st p))"
proof -
  obtain n where m: "fst (plan_step U fs st p) = fst st @ [(p, with_name p n)]"
    and free: "\<not> (exists_path fs (with_name p n) \<and> with_name p n \<noteq> p)"
    and other: "\<not> planned_for_other (fst st) p (with_name p n)"
    using plan_step_mapping by blast
  let ?q = "with_name p n"
  have old_a: "\<And>s d. (s, d) \<in> set (fst st) \<Longrightarrow> exists_path fs d \<Longrightarrow> d = s"
    using ok by (auto simp: plan_ok_def)
  have old_b: "\<And>s1 d1 s2 d2. (s1, d1) \<in> set (fst st) \<Longrightarrow> (s2, d2) \<in> set (fst st)
                 \<Longrightarrow> s1 \<noteq> s2 \<Longrightarrow> d1 \<noteq> d2"
    using ok by (auto simp: plan_ok_def)
  have clash: "\<And>s d. (s, d) \<in> set (fst st) \<Longrightarrow> s \<noteq> p \<Longrightarrow> d \<noteq> ?q"
  proof
    fix s d assume sd: "(s, d) \<in> set (fst st)" and sp: "s \<noteq> p" and dq: "d = ?q"
    have "parent d = parent p" unfolding dq by (rule parent_with_name)
    with other sd dq have "d = p"
      by (auto simp: planned_for_other_def list_ex_iff)
    with ex old_a [OF sd] have "s = p" by simp
    with sp show False by simp
  qed
  show ?thesis
    unfolding m plan_ok_def
    using free old_a old_b clash by (auto simp: all_conj_distrib) blast+
qed

lemma plan_step_sources: "map fst (fst (plan_step U fs st p)) = map fst (fst st) @ [p]"
  using plan_step_mapping [of U fs st p] by auto

lemma plan_loop_ok:
  "\<forall>p\<in>set files. exists_path fs p \<Longrightarrow> plan_ok fs (fst st)
     \<Longrightarrow> plan_ok fs (fst (plan_loop U fs st files))"
proof (induction files arbitrary: st)
  case Nil
  then show ?case by simp
next
  case (Cons p files)
  have "plan_ok fs (fst (plan_step U fs st p))"
    using Cons.prems by (intro plan_step_ok) simp_all
  with Cons show ?case by simp
qed

lemma plan_loop_sources:
  "map fst (fst (plan_loop U fs st files)) = map fst (fst st) @ files"
  by (induction files arbitrary: st) (simp_all add: plan_step_sources)

lemma discover_exists: "p \<in> set (discover U fs directory recursive) \<Longrightarrow> exists_path fs p"
  by (auto simp: discover_def exists_path_def iterdir_def rglob_all_def split: if_splits)

lemma plan_renames_ok:
  "plan_ok fs (plan_renames U fs (discover U fs directory recursive))"
  unfolding plan_renames_def
  by (rule plan_loop_ok) (auto simp: plan_ok_def dest: discover_exists)

lemma plan_loop_parents:
  "\<forall>(src, dst)\<in>set (fst st). parent dst = parent src
     \<Longrightarrow> \<forall>(src, dst)\<in>set (fst (plan_loop U fs st files)). parent dst = parent src"
proof (induction files arbitrary: st)
  case Nil
  then show ?case by simp
next
  case (Cons p files)
  obtain n where m: "fst (plan_step U fs st p) = fst st @ [(p, with_name p n)]"
    using plan_step_mapping by blast
  have "\<forall>(src, dst)\<in>set (fst (plan_step U fs st p)). parent dst = parent src"
    unfolding m using Cons.prems by (auto simp: parent_with_name)
  then show ?case using Cons.IH by simp
qed

text \<open>
  C6: for every directory state, the plan of the planning loop holds no two entries with
  different sources and the same destination (destinations are in the source's directory),
  and no entry whose destination exists at planning time and is not the entry's own
  source. The plan has one entry for every discovered file, in sorted order.
\<close>

theorem plan_has_no_collision:
  "(\<forall>(src1, dst1)\<in>set (plan_renames U fs (discover U fs directory recursive)).
      \<forall>(src2, dst2)\<in>set (plan_renames U fs (discover U fs directory recursive)).
        src1 \<noteq> src2 \<longrightarrow> dst1 \<noteq> dst2)
   \<and> (\<forall>(src, dst)\<in>set (plan_renames U fs (discover U fs directory recursive)).
        exists_path fs dst \<longrightarrow> dst = src)
   \<and> (\<forall>(src, dst)\<in>set (plan_renames U fs (discover U fs directory recursive)).
        parent dst = parent src)
   \<and> map fst (plan_renames U fs (discover U fs directory recursive))
        = sort (discover U fs directory recursive)"
proof -
  let ?plan = "plan_renames U fs (discover U fs directory recursive)"
  have ok: "plan_ok fs ?plan" by (rule plan_renames_ok)
  have a: "\<forall>(src1, dst1)\<in>set ?plan. \<forall>(src2, dst2)\<in>set ?plan. src1 \<noteq> src2 \<longrightarrow> dst1 \<noteq> dst2"
    using ok unfolding plan_ok_def by (rule conjunct1)
  have b: "\<forall>(src, dst)\<in>set ?plan. exists_path fs dst \<longrightarrow> dst = src"
    using ok unfolding plan_ok_def by (rule conjunct2)
  have c: "\<forall>(src, dst)\<in>set ?plan. parent dst = parent src"
    unfolding plan_renames_def by (rule plan_loop_parents) simp
  have d: "map fst ?plan = sort (discover U fs directory recursive)"
    by (simp add: plan_renames_def plan_loop_sources)
  from a b c d show ?thesis by (intro conjI)
qed



subsection \<open>A directory with two files that reduce to the same title\<close>

lemma title_episode_bang_stages:
  "map (\<lambda>c. if c = 0x5F then 0x20 else c) (ustr ''Episode!'') = ustr ''Episode!''"
  "remove_emojis (ustr ''Episode!'') = ustr ''Episode!''"
  "remove_known_tags U (ustr ''Episode!'') = ustr ''Episode!''"
  "strip_brackets_and_parentheses (ustr ''Episode!'') = ustr ''Episode!''"
  "strip_leading_noise U (ustr ''Episode!'') = ustr ''Episode!''"
  "has_separator (ustr ''Episode!'') = False"
  "drop_allcaps_prefix (ustr ''Episode!'') = ustr ''Episode!''"
  "sanitize_whitespace_and_punct (ustr ''Episode!'') = ustr ''Episode!''"
  "strip_trailing_noise U (ustr ''Episode!'') = ustr ''Episode''"
  "make_safe_filename (ustr ''Episode'') = ustr ''Episode''"
  by (simp_all add: char_defs re_defs fn_defs ascii_letter_count_def)

lemma title_episode_plain_stages:
  "map (\<lambda>c. if c = 0x5F then 0x20 else c) (ustr ''Episode'') = ustr ''Episode''"
  "remove_emojis (ustr ''Episode'') = ustr ''Episode''"
  "remove_known_tags U (ustr ''Episode'') = ustr ''Episode''"
  "strip_brackets_and_parentheses (ustr ''Episode'') = ustr ''Episode''"
  "strip_leading_noise U (ustr ''Episode'') = ustr ''Episode''"
  "has_separator (ustr ''Episode'') = False"
  "drop_allcaps_prefix (ustr ''Episode'') = ustr ''Episode''"
  "sanitize_whitespace_and_punct (ustr ''Episode'') = ustr ''Episode''"
  "strip_trailing_noise U (ustr ''Episode'') = ustr ''Episode''"
  by (simp_all add: char_defs re_defs fn_defs ascii_letter_count_def)

lemma extract_title_episode:
  "extract_title U (ustr ''Episode!'') = ustr ''Episode''"
  "extract_title U (ustr ''Episode'') = ustr ''Episode''"
proof -
  have a: "title_pipeline U (ustr ''Episode!'') = ustr ''Episode''"
    unfolding title_pipeline_def Let_def title_episode_bang_stages if_False by (rule refl)
  have b: "title_pipeline U (ustr ''Episode'') = ustr ''Episode''"
    unfolding title_pipeline_def Let_def title_episode_plain_stages title_episode_bang_stages(10) if_False
    by (rule refl)
  have n: "ustr ''Episode'' \<noteq> []" by (simp add: ustr_def)
  show "extract_title U (ustr ''Episode!'') = ustr ''Episode''"
    unfolding extract_title_def Let_def a using n by simp
  show "extract_title U (ustr ''Episode'') = ustr ''Episode''"
    unfolding extract_title_def Let_def b using n by simp
qed

lemmas path_defs = path_name_def parent_def with_name_def rfind_def path_suffix_def path_stem_def
  exists_path_def is_file_def iterdir_def rglob_all_def EXTENSIONS_def discover_def numbered_def
  planned_for_other_def

lemma demo_names:
  "path_stem [ustr ''d'', ustr ''Episode!.mp3''] = ustr ''Episode!''"
  "path_suffix [ustr ''d'', ustr ''Episode!.mp3''] = ustr ''.mp3''"
  "path_stem [ustr ''d'', ustr ''Episode.mp3''] = ustr ''Episode''"
  "path_suffix [ustr ''d'', ustr ''Episode.mp3''] = ustr ''.mp3''"
  "py_lower U (ustr ''.mp3'') = ustr ''.mp3''"
  "ustr ''Episode'' @ ustr ''.mp3'' = ustr ''Episode.mp3''"
  by (simp_all add: path_defs ustr_def py_lower_def char_defs)

lemma demo_discover:
  "discover U [([ustr ''d'', ustr ''Episode.mp3''], True), ([ustr ''d'', ustr ''Episode!.mp3''], True)]
     [ustr ''d''] False
   = [[ustr ''d'', ustr ''Episode.mp3''], [ustr ''d'', ustr ''Episode!.mp3'']]"
  by (simp add: path_defs ustr_def py_lower_def char_defs)

lemma demo_sort:
  "sort [[ustr ''d'', ustr ''Episode.mp3''], [ustr ''d'', ustr ''Episode!.mp3'']]
   = [[ustr ''d'', ustr ''Episode!.mp3''], [ustr ''d'', ustr ''Episode.mp3'']]"
  by (simp add: ustr_def)

lemma demo_loop_first:
  "collision_loop [([ustr ''d'', ustr ''Episode.mp3''], True), ([ustr ''d'', ustr ''Episode!.mp3''], True)]
     [] [ustr ''d'', ustr ''Episode!.mp3''] (ustr ''Episode'') (ustr ''.mp3'') 0 (ustr ''Episode.mp3'')
   = (1, ustr ''Episode (1).mp3'')"
  by (simp add: collision_loop.simps path_defs ustr_def str_nat.simps)

lemma demo_loop_second:
  "collision_loop [([ustr ''d'', ustr ''Episode.mp3''], True), ([ustr ''d'', ustr ''Episode!.mp3''], True)]
     [([ustr ''d'', ustr ''Episode!.mp3''], [ustr ''d'', ustr ''Episode (1).mp3''])]
     [ustr ''d'', ustr ''Episode.mp3''] (ustr ''Episode'') (ustr ''.mp3'') 1 (ustr ''Episode.mp3'')
   = (1, ustr ''Episode.mp3'')"
  by (simp add: collision_loop.simps path_defs ustr_def str_nat.simps)

lemma demo_with_name:
  "with_name [ustr ''d'', ustr ''Episode!.mp3''] (ustr ''Episode (1).mp3'')
     = [ustr ''d'', ustr ''Episode (1).mp3'']"
  "with_name [ustr ''d'', ustr ''Episode.mp3''] (ustr ''Episode.mp3'')
     = [ustr ''d'', ustr ''Episode.mp3'']"
  by (simp_all add: with_name_def)

lemma demo_plan:
  "plan_renames U [([ustr ''d'', ustr ''Episode.mp3''], True), ([ustr ''d'', ustr ''Episode!.mp3''], True)]
     (discover U [([ustr ''d'', ustr ''Episode.mp3''], True), ([ustr ''d'', ustr ''Episode!.mp3''], True)]
        [ustr ''d''] False)
   = [([ustr ''d'', ustr ''Episode!.mp3''], [ustr ''d'', ustr ''Episode (1).mp3'']),
      ([ustr ''d'', ustr ''Episode.mp3''], [ustr ''d'', ustr ''Episode.mp3''])]"
  unfolding plan_renames_def demo_discover demo_sort plan_loop.simps plan_step_def Let_def
    fst_conv snd_conv demo_names extract_title_episode
  apply (simp only: demo_loop_first demo_with_name fst_conv snd_conv option.case fun_upd_same
      append_Nil append_Cons)
  apply (simp only: demo_loop_second demo_with_name fst_conv snd_conv)
  done

text \<open>
  C6 on a directory \<open>d\<close> with \<open>Episode.mp3\<close> and \<open>Episode!.mp3\<close>: both titles are
  \<open>Episode\<close>; the first file in sorted order gets \<open>Episode (1).mp3\<close>, the second keeps
  its name.
\<close>

theorem plan_has_no_collision_witness:
  "plan_renames ascii_ucd
     [([ustr ''d'', ustr ''Episode.mp3''], True), ([ustr ''d'', ustr ''Episode!.mp3''], True)]
     (discover ascii_ucd
        [([ustr ''d'', ustr ''Episode.mp3''], True), ([ustr ''d'', ustr ''Episode!.mp3''], True)]
        [ustr ''d''] False)
   = [([ustr ''d'', ustr ''Episode!.mp3''], [ustr ''d'', ustr ''Episode (1).mp3'']),
      ([ustr ''d'', ustr ''Episode.mp3''], [ustr ''d'', ustr ''Episode.mp3''])]
   \<and> [ustr ''d'', ustr ''Episode (1).mp3''] \<noteq> [ustr ''d'', ustr ''Episode.mp3'']
   \<and> \<not> exists_path
        [([ustr ''d'', ustr ''Episode.mp3''], True), ([ustr ''d'', ustr ''Episode!.mp3''], True)]
        [ustr ''d'', ustr ''Episode (1).mp3'']"
  using plan_has_no_collision [of ascii_ucd
      "[([ustr ''d'', ustr ''Episode.mp3''], True), ([ustr ''d'', ustr ''Episode!.mp3''], True)]"
      "[ustr ''d'']" False]
  unfolding demo_plan
  by (simp add: ustr_def)

section \<open>Dry run\<close>

subsection \<open>The planner where \<open>exists()\<close> may raise\<close>

lemma collision_loop_e_Inr:
  "collision_loop_e os fs mapping p new_title ext count candidate_name = Inr r
     \<Longrightarrow> r = collision_loop fs mapping p new_title ext count candidate_name"
proof (induction os fs mapping p new_title ext count candidate_name rule: collision_loop_e.induct)
  case (1 os fs mapping p new_title ext count candidate_name)
  from "1.prems" have ne: "os_exists_error os (with_name p candidate_name) = None"
    by (subst (asm) collision_loop_e.simps) (auto split: option.splits)
  show ?case
  proof (cases "exists_path fs (with_name p candidate_name) \<and> with_name p candidate_name \<noteq> p")
    case True
    from "1.prems" ne True have "collision_loop_e os fs mapping p new_title ext (count + 1)
             (numbered new_title (count + 1) ext) = Inr r"
      by (subst (asm) collision_loop_e.simps) (auto split: if_splits)
    with ne True have "r = collision_loop fs mapping p new_title ext (count + 1)
             (numbered new_title (count + 1) ext)" by (rule "1.IH"(1))
    with True show ?thesis by (subst collision_loop.simps) (auto split: if_splits)
  next
    case False
    show ?thesis
    proof (cases "planned_for_other mapping p (with_name p candidate_name)")
      case True
      from "1.prems" ne False True have "collision_loop_e os fs mapping p new_title ext (count + 1)
             (numbered new_title (count + 1) ext) = Inr r"
        by (subst (asm) collision_loop_e.simps) (auto split: if_splits)
      with ne False True have "r = collision_loop fs mapping p new_title ext (count + 1)
             (numbered new_title (count + 1) ext)" by (rule "1.IH"(2))
      with False True show ?thesis by (subst collision_loop.simps) (auto split: if_splits)
    next
      case np: False
      from "1.prems" ne False np have "r = (count, candidate_name)"
        by (subst (asm) collision_loop_e.simps) (auto split: if_splits)
      with False np show ?thesis by (subst collision_loop.simps) (auto split: if_splits)
    qed
  qed
qed


lemma plan_step_e_Inr: "plan_step_e os U fs st p = Inr st' \<Longrightarrow> st' = plan_step U fs st p"
  by (auto simp: plan_step_e_def plan_step_def Let_def split: sum.splits dest!: collision_loop_e_Inr)


lemma plan_loop_e_Inr:
  "plan_loop_e os U fs st files = Inr st' \<Longrightarrow> st' = plan_loop U fs st files"
proof (induction files arbitrary: st)
  case Nil
  then show ?case by simp
next
  case (Cons p files)
  from Cons.prems obtain st1 where s: "plan_step_e os U fs st p = Inr st1"
    and l: "plan_loop_e os U fs st1 files = Inr st'"
    by (auto split: sum.splits)
  from s have "st1 = plan_step U fs st p" by (rule plan_step_e_Inr)
  with Cons.IH [OF l] show ?case by simp
qed


lemma plan_renames_e_Inr:
  "plan_renames_e os U fs files = Inr mapping \<Longrightarrow> mapping = plan_renames U fs files"
  by (auto simp: plan_renames_e_def plan_renames_def split: sum.splits dest!: plan_loop_e_Inr)


text \<open>So the plan of a planning that ends without an exception has the invariant.\<close>

lemma plan_renames_e_ok:
  assumes "plan_renames_e os U fs (discover U fs directory recursive) = Inr mapping"
  shows "plan_ok fs mapping"
proof -
  have "mapping = plan_renames U fs (discover U fs directory recursive)"
    using assms by (rule plan_renames_e_Inr)
  then show ?thesis by (simp add: plan_renames_ok)
qed




subsection \<open>A run without \<open>--apply\<close>\<close>









subsection \<open>A dry run on a directory with two files\<close>






end
